theory Spec2Isabelle
  imports Complex_Main "HOL-Library.AList"
begin

section \<open>Numbers and text as the scripts see them\<close>

text \<open>
  The scripts compute with Python floats.  A float is modelled by an exact rational, or one
  of the three special values; rounding and overflow to infinity are outside the model, so
  every statement about sums and means below is a statement of exact arithmetic.
\<close>

datatype pyfloat = Fin rat | PInf | NInf | NaN

fun fadd :: "pyfloat \<Rightarrow> pyfloat \<Rightarrow> pyfloat" where
  "fadd NaN y = NaN"
| "fadd x NaN = NaN"
| "fadd (Fin a) (Fin b) = Fin (a + b)"
| "fadd PInf NInf = NaN"
| "fadd NInf PInf = NaN"
| "fadd PInf y = PInf"
| "fadd x PInf = PInf"
| "fadd NInf y = NInf"
| "fadd x NInf = NInf"

text \<open>Python's \<open>sum\<close>: a left fold that starts at zero.\<close>

definition fsum :: "pyfloat list \<Rightarrow> pyfloat" where
  "fsum xs = foldl fadd (Fin 0) xs"

text \<open>Division of a float by a positive count, as in \<open>sum(vals) / len(vals)\<close>.\<close>

fun fdivn :: "pyfloat \<Rightarrow> nat \<Rightarrow> pyfloat" where
  "fdivn (Fin a) n = Fin (a / of_nat n)"
| "fdivn PInf n = PInf"
| "fdivn NInf n = NInf"
| "fdivn NaN n = NaN"

text \<open>The arithmetic mean of a list that is not empty.\<close>

definition fmean :: "pyfloat list \<Rightarrow> pyfloat" where
  "fmean vals = fdivn (fsum vals) (length vals)"

text \<open>A cell as the scripts receive it: absent, already numeric, or text.\<close>

datatype pyval = PyNone | PyNum pyfloat | PyStr string

subsection \<open>Characters and strings\<close>

text \<open>
  Characters are code points below 256.  \<open>is_space\<close> lists the ones for which Python's
  \<open>str.isspace\<close> holds; it is what \<open>\s\<close> matches and what \<open>str.strip\<close> trims.
  \<open>is_digit\<close> is \<open>\d\<close> on that range.
\<close>

definition is_space :: "char \<Rightarrow> bool" where
  "is_space c = (c \<in> set [CHR 0x09, CHR 0x0A, CHR 0x0B, CHR 0x0C, CHR 0x0D,
                            CHR 0x1C, CHR 0x1D, CHR 0x1E, CHR 0x1F, CHR 0x20,
                            CHR 0x85, CHR 0xA0])"

definition is_digit :: "char \<Rightarrow> bool" where
  "is_digit c = (c \<in> set ''0123456789'')"

definition digit_val :: "char \<Rightarrow> nat" where
  "digit_val c = of_char c - 48"

definition strip :: "string \<Rightarrow> string" where
  "strip s = rev (dropWhile is_space (rev (dropWhile is_space s)))"

text \<open>
  \<open>int\<close> and \<open>float\<close> trim less than \<open>str.strip\<close>: the six ASCII blanks and the
  blanks above the ASCII range, but not the separators 0x1C to 0x1F, on which they raise
  \<open>ValueError\<close>.
\<close>

definition is_num_space :: "char \<Rightarrow> bool" where
  "is_num_space c = (c \<in> set [CHR 0x09, CHR 0x0A, CHR 0x0B, CHR 0x0C, CHR 0x0D, CHR 0x20,
                                CHR 0x85, CHR 0xA0])"

definition num_strip :: "string \<Rightarrow> string" where
  "num_strip s = rev (dropWhile is_num_space (rev (dropWhile is_num_space s)))"

text \<open>\<open>s.split(d)\<close> for a one-character separator: always at least one piece.\<close>

fun split_on :: "char \<Rightarrow> string \<Rightarrow> string list" where
  "split_on d [] = [[]]"
| "split_on d (c # cs) =
     (if c = d then [] # split_on d cs
      else (case split_on d cs of
              w # ws \<Rightarrow> (c # w) # ws
            | [] \<Rightarrow> [[c]]))"

definition endswith_plus :: "string \<Rightarrow> bool" where
  "endswith_plus k = (k \<noteq> [] \<and> last k = CHR ''+'')"

subsection \<open>Python's numeric literals\<close>

text \<open>
  A digit part is a run of digits in which single underscores may separate digits; this is
  what \<open>int\<close> and \<open>float\<close> accept wherever they expect digits.
\<close>

fun digitpart :: "string \<Rightarrow> bool" where
  "digitpart [] = False"
| "digitpart [c] = is_digit c"
| "digitpart (c # d # cs) =
     (is_digit c \<and> (if d = CHR ''_'' then digitpart cs else digitpart (d # cs)))"

definition digits_val :: "string \<Rightarrow> nat" where
  "digits_val s = foldl (\<lambda>a c. 10 * a + digit_val c) 0 (filter is_digit s)"

text \<open>
  \<open>int(k)\<close> on text: \<open>None\<close> stands for the \<open>ValueError\<close>.  The interpreter refuses a
  literal with more than 4300 digits (its default \<open>int_max_str_digits\<close>; the sign and the
  underscores do not count), also with \<open>ValueError\<close>.
\<close>

definition max_str_digits :: nat where
  "max_str_digits = 4300"

definition int_literal :: "string \<Rightarrow> nat option" where
  "int_literal r =
     (if digitpart r \<and> length (filter is_digit r) \<le> max_str_digits then Some (digits_val r)
      else None)"

definition py_int :: "string \<Rightarrow> int option" where
  "py_int s =
     (case num_strip s of
        [] \<Rightarrow> None
      | c # r \<Rightarrow>
          if c = CHR ''-'' then (case int_literal r of None \<Rightarrow> None | Some n \<Rightarrow> Some (- int n))
          else if c = CHR ''+'' then (case int_literal r of None \<Rightarrow> None | Some n \<Rightarrow> Some (int n))
          else (case int_literal (c # r) of None \<Rightarrow> None | Some n \<Rightarrow> Some (int n)))"

text \<open>The text before the first character satisfying \<open>P\<close>, and the text after it if there is one.\<close>

definition split_first :: "(char \<Rightarrow> bool) \<Rightarrow> string \<Rightarrow> string \<times> string option" where
  "split_first P s =
     (takeWhile (\<lambda>c. \<not> P c) s,
      case dropWhile (\<lambda>c. \<not> P c) s of [] \<Rightarrow> None | c # r \<Rightarrow> Some r)"

definition parse_exp :: "string option \<Rightarrow> int option" where
  "parse_exp ex =
     (case ex of
        None \<Rightarrow> Some 0
      | Some [] \<Rightarrow> None
      | Some (c # r) \<Rightarrow>
          if c = CHR ''-'' then (if digitpart r then Some (- int (digits_val r)) else None)
          else if c = CHR ''+'' then (if digitpart r then Some (int (digits_val r)) else None)
          else if digitpart (c # r) then Some (int (digits_val (c # r))) else None)"

definition scale10 :: "rat \<Rightarrow> int \<Rightarrow> rat" where
  "scale10 q e = (if 0 \<le> e then q * 10 ^ nat e else q / 10 ^ nat (- e))"

definition parse_decimal :: "string \<Rightarrow> rat option" where
  "parse_decimal s =
     (case split_first (\<lambda>c. c = CHR ''e'' \<or> c = CHR ''E'') s of
        (m, ex) \<Rightarrow>
          (case split_first (\<lambda>c. c = CHR ''.'') m of
             (ip, fpo) \<Rightarrow>
               (let fp = (case fpo of None \<Rightarrow> [] | Some f \<Rightarrow> f) in
                if (ip = [] \<or> digitpart ip) \<and> (fp = [] \<or> digitpart fp) \<and> (ip \<noteq> [] \<or> fp \<noteq> [])
                then (case parse_exp ex of
                        None \<Rightarrow> None
                      | Some e \<Rightarrow>
                          Some (scale10 (of_nat (digits_val (ip @ fp))
                                          / 10 ^ length (filter is_digit fp)) e))
                else None)))"

definition lower_char :: "char \<Rightarrow> char" where
  "lower_char c =
     (case map_of (zip ''ABCDEFGHIJKLMNOPQRSTUVWXYZ'' ''abcdefghijklmnopqrstuvwxyz'') c of
        None \<Rightarrow> c
      | Some l \<Rightarrow> l)"

text \<open>
  \<open>float(s)\<close> on text: \<open>None\<close> stands for the \<open>ValueError\<close>.  There is no limit on the
  number of digits here.
\<close>

definition py_float :: "string \<Rightarrow> pyfloat option" where
  "py_float s =
     (let t = num_strip s;
          neg = (t \<noteq> [] \<and> hd t = CHR ''-'');
          body = (if t \<noteq> [] \<and> (hd t = CHR ''-'' \<or> hd t = CHR ''+'') then tl t else t);
          low = map lower_char body
      in if low = ''inf'' \<or> low = ''infinity'' then Some (if neg then NInf else PInf)
         else if low = ''nan'' then Some NaN
         else (case parse_decimal body of
                 None \<Rightarrow> None
               | Some q \<Rightarrow> Some (Fin (if neg then - q else q))))"

section \<open>Histogram mini-format parser (plot\_phase1.parse\_hist)\<close>

definition is_numch :: "char \<Rightarrow> bool" where
  "is_numch c = (c \<in> set ''0123456789eE+.-'')"

text \<open>
  The pattern \<open>^(\d+\+?):\s*([0-9eE+.-]+)$\<close> under \<open>re.match\<close>: the two groups, or
  \<open>None\<close> when the token does not match.  \<open>$\<close> also matches before one final newline.
\<close>

definition hist_token_match :: "string \<Rightarrow> (string \<times> string) option" where
  "hist_token_match p =
     (let ds = takeWhile is_digit p;
          r1 = dropWhile is_digit p;
          plus = (r1 \<noteq> [] \<and> hd r1 = CHR ''+'');
          key = (if plus then ds @ ''+'' else ds);
          r2 = (if plus then tl r1 else r1)
      in if ds = [] then None
         else (case r2 of
                 [] \<Rightarrow> None
               | c # r3 \<Rightarrow>
                   if c \<noteq> CHR '':'' then None
                   else (let v = dropWhile is_space r3;
                             v' = (if v \<noteq> [] \<and> last v = CHR 0x0A then butlast v else v)
                         in if v' \<noteq> [] \<and> list_all is_numch v' then Some (key, v')
                            else None)))"

text \<open>One round of the loop over the tokens; the dict is an association list in insertion order.\<close>

definition hist_step :: "(string \<times> pyfloat) list \<Rightarrow> string \<Rightarrow> (string \<times> pyfloat) list" where
  "hist_step out p =
     (case hist_token_match p of
        None \<Rightarrow> out
      | Some (key, val) \<Rightarrow>
          (case py_float val of
             None \<Rightarrow> out
           | Some x \<Rightarrow> AList.update key x out))"

definition parse_hist :: "pyval \<Rightarrow> (string \<times> pyfloat) list" where
  "parse_hist h =
     (case h of
        PyStr s \<Rightarrow>
          if strip s = [] then []
          else foldl hist_step []
                 (filter (\<lambda>p. p \<noteq> []) (map strip (split_on CHR '','' s)))
      | _ \<Rightarrow> [])"

section \<open>Histogram bucketizer (plot\_phase1.bucket\_hist\_simplified)\<close>

text \<open>
  The result dict has the six fixed keys \<open>Empty (0)\<close>, \<open>Single (1)\<close>, \<open>2-4\<close>, \<open>5-8\<close>,
  \<open>9-16\<close> and \<open>17+\<close>, in this order; it is a record with one field for each.
\<close>

record buckets =
  empty0 :: pyfloat
  single1 :: pyfloat
  b2_4 :: pyfloat
  b5_8 :: pyfloat
  b9_16 :: pyfloat
  b17p :: pyfloat

definition buckets0 :: buckets where
  "buckets0 = \<lparr>empty0 = Fin 0, single1 = Fin 0, b2_4 = Fin 0, b5_8 = Fin 0,
               b9_16 = Fin 0, b17p = Fin 0\<rparr>"

definition bucket_step :: "buckets \<Rightarrow> string \<times> pyfloat \<Rightarrow> buckets" where
  "bucket_step b kv =
     (case kv of
        (k, v) \<Rightarrow>
          if endswith_plus k then b\<lparr>b17p := fadd (b17p b) v\<rparr>
          else (case py_int k of
                  None \<Rightarrow> b
                | Some i \<Rightarrow>
                    if i = 0 then b\<lparr>empty0 := fadd (empty0 b) v\<rparr>
                    else if i = 1 then b\<lparr>single1 := fadd (single1 b) v\<rparr>
                    else if 2 \<le> i \<and> i \<le> 4 then b\<lparr>b2_4 := fadd (b2_4 b) v\<rparr>
                    else if 5 \<le> i \<and> i \<le> 8 then b\<lparr>b5_8 := fadd (b5_8 b) v\<rparr>
                    else if 9 \<le> i \<and> i \<le> 16 then b\<lparr>b9_16 := fadd (b9_16 b) v\<rparr>
                    else b\<lparr>b17p := fadd (b17p b) v\<rparr>))"

definition bucket_hist_simplified :: "(string \<times> pyfloat) list \<Rightarrow> buckets" where
  "bucket_hist_simplified hist = foldl bucket_step buckets0 hist"

text \<open>\<open>sum(buckets.values())\<close>.\<close>

definition bucket_total :: "buckets \<Rightarrow> pyfloat" where
  "bucket_total b = fsum [empty0 b, single1 b, b2_4 b, b5_8 b, b9_16 b, b17p b]"

text \<open>
  The bucketizer adds the counts in another order than a sum over the mapping does, and float
  addition rounds, so the two sums can differ in the last place (0.1, 0.2 and 0.3 under the
  keys 20, 0 and 1 give 0.6 and 0.6000000000000001).  \<open>exact_counts\<close> describes counts for
  which no addition rounds: non-negative whole numbers with a total of at most \<open>2 ^ 53\<close>.
  For such counts the exact sums of the model are the sums the interpreter computes.
\<close>

definition whole_count :: "pyfloat \<Rightarrow> bool" where
  "whole_count v = (case v of Fin q \<Rightarrow> 0 \<le> q \<and> q = of_int (floor q) | _ \<Rightarrow> False)"

definition exact_counts :: "(string \<times> pyfloat) list \<Rightarrow> bool" where
  "exact_counts hist =
     (list_all (\<lambda>kv. whole_count (snd kv)) hist
      \<and> (case fsum (map snd hist) of Fin q \<Rightarrow> q \<le> 2 ^ 53 | _ \<Rightarrow> False))"

text \<open>
  The mapping rule as the specification words it: the label a key is counted under, or
  \<open>None\<close> for a key that is skipped.
\<close>

datatype label = Empty0 | Single1 | B2_4 | B5_8 | B9_16 | B17p

definition bucket_rule :: "string \<Rightarrow> label option" where
  "bucket_rule k =
     (if endswith_plus k then Some B17p
      else (case py_int k of
              None \<Rightarrow> None
            | Some i \<Rightarrow>
                Some (if i = 0 then Empty0
                      else if i = 1 then Single1
                      else if 2 \<le> i \<and> i \<le> 4 then B2_4
                      else if 5 \<le> i \<and> i \<le> 8 then B5_8
                      else if 9 \<le> i \<and> i \<le> 16 then B9_16
                      else B17p)))"

fun bucket_get :: "label \<Rightarrow> buckets \<Rightarrow> pyfloat" where
  "bucket_get Empty0 b = empty0 b"
| "bucket_get Single1 b = single1 b"
| "bucket_get B2_4 b = b2_4 b"
| "bucket_get B5_8 b = b5_8 b"
| "bucket_get B9_16 b = b9_16 b"
| "bucket_get B17p b = b17p b"

section \<open>Per-core cell decoder (plot\_multicore.parse\_per\_core\_values, per\_core\_mean)\<close>

text \<open>\<open>s.replace(ab, r)\<close> and \<open>ab in s\<close> for a two-character pattern \<open>ab\<close> with \<open>a \<noteq> b\<close>.\<close>

fun replace2 :: "char \<Rightarrow> char \<Rightarrow> char \<Rightarrow> string \<Rightarrow> string" where
  "replace2 a b r (x # y # s) =
     (if x = a \<and> y = b then r # replace2 a b r s else x # replace2 a b r (y # s))"
| "replace2 a b r s = s"

fun contains2 :: "char \<Rightarrow> char \<Rightarrow> string \<Rightarrow> bool" where
  "contains2 a b (x # y # s) = ((x = a \<and> y = b) \<or> contains2 a b (y # s))"
| "contains2 a b s = False"

text \<open>
  \<open>str.splitlines\<close>: a line ends at a line-break character, CR LF counts as one break,
  and no empty line is reported after the last break.
\<close>

definition is_linebreak :: "char \<Rightarrow> bool" where
  "is_linebreak c = (c \<in> set [CHR 0x0A, CHR 0x0B, CHR 0x0C, CHR 0x0D,
                                CHR 0x1C, CHR 0x1D, CHR 0x1E, CHR 0x85])"

fun splitlines_from :: "string \<Rightarrow> string \<Rightarrow> string list" where
  "splitlines_from cur [] = (if cur = [] then [] else [cur])"
| "splitlines_from cur [c] = (if is_linebreak c then [cur] else [cur @ [c]])"
| "splitlines_from cur (c # d # s) =
     (if c = CHR 0x0D \<and> d = CHR 0x0A then cur # splitlines_from [] s
      else if is_linebreak c then cur # splitlines_from [] (d # s)
      else splitlines_from (cur @ [c]) (d # s))"

definition splitlines :: "string \<Rightarrow> string list" where
  "splitlines s = splitlines_from [] s"

text \<open>The inner loop: the floats of one line, tokens that \<open>float\<close> rejects left out.\<close>

definition line_values :: "string \<Rightarrow> pyfloat list" where
  "line_values line =
     List.map_filter py_float (filter (\<lambda>p. p \<noteq> []) (map strip (split_on CHR '','' line)))"

text \<open>
  A numeric cell is NaN or a value; any other cell is its text (the model has no cell kinds
  beyond \<open>None\<close>, number and text).
\<close>

definition parse_per_core_values :: "pyval \<Rightarrow> pyfloat list" where
  "parse_per_core_values cell =
     (case cell of
        PyNone \<Rightarrow> []
      | PyNum x \<Rightarrow> if x = NaN then [] else [x]
      | PyStr s \<Rightarrow>
          (let text0 = strip s;
               text1 = (if contains2 (CHR 0x5C) (CHR ''n'') text0
                           \<or> contains2 (CHR 0x5C) (CHR ''r'') text0
                        then replace2 (CHR 0x5C) (CHR ''n'') (CHR 0x0A)
                               (replace2 (CHR 0x5C) (CHR ''r'') (CHR 0x0D) text0)
                        else text0)
           in if text1 = [] then [] else concat (map line_values (splitlines text1))))"

definition per_core_mean :: "pyval \<Rightarrow> pyfloat" where
  "per_core_mean cell =
     (let values = parse_per_core_values cell
      in if values = [] then NaN else fdivn (fsum values) (length values))"

text \<open>
  The flattened list as the specification words it: un-escape the line-break markers of the
  trimmed text, split into lines, split each line on commas, trim each token, parse it as a
  float and drop it when that fails.
\<close>

definition flat_numeric_tokens :: "string \<Rightarrow> pyfloat list" where
  "flat_numeric_tokens s =
     concat (map (\<lambda>line. List.map_filter (\<lambda>tok. py_float (strip tok)) (split_on CHR '','' line))
               (splitlines (replace2 (CHR 0x5C) (CHR ''n'') (CHR 0x0A)
                              (replace2 (CHR 0x5C) (CHR ''r'') (CHR 0x0D) (strip s)))))"

section \<open>Tolerant row reconstructor (plot\_multicore.read\_multicore\_csv)\<close>

text \<open>The exceptions the scripts raise or catch.\<close>

datatype pyerr = ValueError | TypeError | KeyError

text \<open>
  \<open>next(csv.reader([line], delimiter=",", quotechar='"'))\<close>: the reader's state machine
  with the default dialect (double quotes inside a quoted field, no escape character, not
  strict).  A physical line holds no line-break character, because the file is read in text
  mode and cut at the breaks, so the transitions for a break inside the line are left out.
  The reader's limit on the length of one field (131072 characters, beyond which it raises
  \<open>csv.Error\<close>) is not modelled: the lines are taken to have no field that long.
\<close>

datatype csv_state =
  START_RECORD | START_FIELD | IN_FIELD | IN_QUOTED_FIELD | QUOTE_IN_QUOTED_FIELD

record csv_reader =
  rstate :: csv_state
  row_fields :: "string list"
  cur_field :: string

definition parse_add_char :: "csv_reader \<Rightarrow> char \<Rightarrow> csv_reader" where
  "parse_add_char r c = r\<lparr>cur_field := cur_field r @ [c]\<rparr>"

definition parse_save_field :: "csv_reader \<Rightarrow> csv_reader" where
  "parse_save_field r = r\<lparr>row_fields := row_fields r @ [cur_field r], cur_field := []\<rparr>"

definition start_field_char :: "csv_reader \<Rightarrow> char \<Rightarrow> csv_reader" where
  "start_field_char r c =
     (if c = CHR 0x22 then r\<lparr>rstate := IN_QUOTED_FIELD\<rparr>
      else if c = CHR '','' then (parse_save_field r)\<lparr>rstate := START_FIELD\<rparr>
      else (parse_add_char r c)\<lparr>rstate := IN_FIELD\<rparr>)"

definition parse_process_char :: "csv_reader \<Rightarrow> char \<Rightarrow> csv_reader" where
  "parse_process_char r c =
     (case rstate r of
        START_RECORD \<Rightarrow> start_field_char r c
      | START_FIELD \<Rightarrow> start_field_char r c
      | IN_FIELD \<Rightarrow>
          if c = CHR '','' then (parse_save_field r)\<lparr>rstate := START_FIELD\<rparr>
          else parse_add_char r c
      | IN_QUOTED_FIELD \<Rightarrow>
          if c = CHR 0x22 then r\<lparr>rstate := QUOTE_IN_QUOTED_FIELD\<rparr>
          else parse_add_char r c
      | QUOTE_IN_QUOTED_FIELD \<Rightarrow>
          if c = CHR 0x22 then (parse_add_char r c)\<lparr>rstate := IN_QUOTED_FIELD\<rparr>
          else if c = CHR '','' then (parse_save_field r)\<lparr>rstate := START_FIELD\<rparr>
          else (parse_add_char r c)\<lparr>rstate := IN_FIELD\<rparr>)"

text \<open>
  The end of the line, and then the end of the input: a quoted field that is still open is
  saved as it stands.
\<close>

definition parse_process_eol :: "csv_reader \<Rightarrow> csv_reader" where
  "parse_process_eol r =
     (case rstate r of
        START_RECORD \<Rightarrow> r
      | IN_QUOTED_FIELD \<Rightarrow> parse_save_field r
      | _ \<Rightarrow> (parse_save_field r)\<lparr>rstate := START_RECORD\<rparr>)"

definition csv_row :: "string \<Rightarrow> string list" where
  "csv_row line =
     row_fields (parse_process_eol
               (foldl parse_process_char \<lparr>rstate = START_RECORD, row_fields = [], cur_field = []\<rparr> line))"

text \<open>\<open>row_start_re.match(line)\<close> for the pattern \<open>^\d+,\<close>.\<close>

definition row_start :: "string \<Rightarrow> bool" where
  "row_start line =
     (takeWhile is_digit line \<noteq> []
      \<and> (case dropWhile is_digit line of [] \<Rightarrow> False | c # r \<Rightarrow> c = CHR '',''))"

text \<open>
  One round of the loop over the lines after the header: \<open>row_lines\<close> are the logical rows
  buffered so far, and a continuation line is joined to the last of them by a backslash and
  the letter n.
\<close>

definition collect_step :: "string list \<Rightarrow> string \<Rightarrow> string list" where
  "collect_step row_lines line =
     (if line = [] then row_lines
      else if row_start line then row_lines @ [line]
      else if row_lines = [] then row_lines
      else butlast row_lines @ [last row_lines @ [CHR 0x5C, CHR ''n''] @ line])"

definition pad_row :: "nat \<Rightarrow> string list \<Rightarrow> string list" where
  "pad_row header_len row =
     (if length row < header_len then row @ replicate (header_len - length row) [] else row)"

text \<open>
  The function up to the list \<open>data_rows\<close>, from the lines of the file with their final
  newline removed.  An empty file raises \<open>ValueError\<close>; the result is the header and the
  rows that are handed to the data frame.
\<close>

definition read_multicore_csv :: "string list \<Rightarrow> pyerr + (string list \<times> string list list)" where
  "read_multicore_csv lines =
     (if lines = [] then Inl ValueError
      else (let header = csv_row (hd lines);
                header_len = length header;
                row_lines = foldl collect_step [] (tl lines);
                data_rows = map (\<lambda>row_text. pad_row header_len (csv_row row_text)) row_lines
            in Inr (header, data_rows)))"

section \<open>Scalar coercion (plot\_bdev.load\_results)\<close>

text \<open>
  What \<open>csv.DictReader\<close> stores under a key: \<open>None\<close> for a column the row is too short
  for, the text of the cell, or the list of the surplus cells of a row that is too long
  (under the key \<open>None\<close>).
\<close>

datatype dictcell = Missing | Text string | Surplus "string list"

text \<open>\<open>float(v)\<close> with the exception it raises.\<close>

definition float_of_cell :: "dictcell \<Rightarrow> pyerr + pyfloat" where
  "float_of_cell v =
     (case v of
        Missing \<Rightarrow> Inl TypeError
      | Surplus xs \<Rightarrow> Inl TypeError
      | Text s \<Rightarrow> (case py_float s of None \<Rightarrow> Inl ValueError | Some x \<Rightarrow> Inr x))"

text \<open>
  The statement \<open>try: out[name] = float(v) if v not in (None, "") else 0.0\<close> with its clause
  \<open>except (ValueError, TypeError): out[name] = 0.0\<close>: the value stored, or the exception
  that leaves the statement.
\<close>

definition coerce_cell :: "dictcell \<Rightarrow> pyerr + pyfloat" where
  "coerce_cell v =
     (case (if v \<noteq> Missing \<and> v \<noteq> Text [] then float_of_cell v else Inr (Fin 0)) of
        Inr x \<Rightarrow> Inr x
      | Inl e \<Rightarrow> if e = ValueError \<or> e = TypeError then Inr (Fin 0) else Inl e)"

definition rename_map :: "(string \<times> string) list" where
  "rename_map =
     [(''QD'', ''Queue Depth''),
      (''IO_Size'', ''IO Size (Bytes)''),
      (''IOPS'', ''IOPS''),
      (''p50_Latency'', ''p50 Latency (us)''),
      (''p99_Latency'', ''p99 Latency (us)''),
      (''p99.9_Latency'', ''p99.9 Latency (us)''),
      (''Cycles_Per_IO'', ''Cycles per IO''),
      (''Instr_Per_IO'', ''Instructions per IO''),
      (''LLC_Misses_Per_IO'', ''LLC Misses per IO''),
      (''Dram_Read_Bytes_Per_IO'', ''DRAM Read Bytes per IO''),
      (''Dram_Write_Bytes_Per_IO'', ''DRAM Write Bytes per IO''),
      (''Energy_Per_IO'', ''Energy per IO (J)'')]"

text \<open>\<open>rename_map.get(k, k)\<close>; the key \<open>None\<close> is not in the map.\<close>

definition rename :: "string option \<Rightarrow> string option" where
  "rename k =
     (case k of
        None \<Rightarrow> None
      | Some s \<Rightarrow> (case map_of rename_map s of None \<Rightarrow> Some s | Some n \<Rightarrow> Some n))"

text \<open>The loop over the items of one raw row, building the record \<open>out\<close>.\<close>

fun load_cells ::
  "(string option \<times> dictcell) list \<Rightarrow> (string option \<times> pyfloat) list
     \<Rightarrow> pyerr + (string option \<times> pyfloat) list" where
  "load_cells [] out = Inr out"
| "load_cells ((k, v) # kvs) out =
     (if k = Some ''Completions_Per_Poll_Hist'' then load_cells kvs out
      else (case coerce_cell v of
              Inl e \<Rightarrow> Inl e
            | Inr x \<Rightarrow> load_cells kvs (AList.update (rename k) x out)))"

text \<open>The loop over the rows of the reader; the file is given by the rows read from it.\<close>

fun load_results ::
  "(string option \<times> dictcell) list list \<Rightarrow> pyerr + (string option \<times> pyfloat) list list" where
  "load_results [] = Inr []"
| "load_results (raw # raws) =
     (case load_cells raw [] of
        Inl e \<Rightarrow> Inl e
      | Inr out \<Rightarrow>
          (case load_results raws of
             Inl e \<Rightarrow> Inl e
           | Inr rows \<Rightarrow> Inr (out # rows)))"

section \<open>Grouped aggregator (plot\_bdev.\_group\_mean)\<close>

text \<open>
  A row is a dict from column names to floats, an association list in insertion order.
  \<open>row_key\<close> is \<open>tuple(row[k] for k in keys)\<close> and \<open>row_entry\<close> the whole \<open>try\<close> block;
  \<open>None\<close> stands for the \<open>KeyError\<close> of a missing column, which the \<open>except\<close> clause turns
  into \<open>continue\<close> (the values are floats, so \<open>float\<close> does not raise).
\<close>

fun row_key :: "string list \<Rightarrow> (string \<times> pyfloat) list \<Rightarrow> pyfloat list option" where
  "row_key [] row = Some []"
| "row_key (k # ks) row =
     (case map_of row k of
        None \<Rightarrow> None
      | Some x \<Rightarrow> (case row_key ks row of None \<Rightarrow> None | Some t \<Rightarrow> Some (x # t)))"

definition row_entry ::
  "string list \<Rightarrow> string \<Rightarrow> (string \<times> pyfloat) list \<Rightarrow> (pyfloat list \<times> pyfloat) option" where
  "row_entry keys value_key row =
     (case row_key keys row of
        None \<Rightarrow> None
      | Some key \<Rightarrow>
          (case map_of row value_key of None \<Rightarrow> None | Some val \<Rightarrow> Some (key, val)))"

text \<open>
  Equality of two key tuples in the dict \<open>buckets\<close>.  A NaN is equal to no float but
  itself as an object, and every NaN read from a row is taken as an object of its own, as
  \<open>load_results\<close> makes them; so a tuple with a NaN is equal to no tuple of another row.
\<close>

definition py_key_eq :: "pyfloat list \<Rightarrow> pyfloat list \<Rightarrow> bool" where
  "py_key_eq a b = (a = b \<and> NaN \<notin> set a)"

text \<open>\<open>buckets.setdefault(key, []).append(val)\<close>.\<close>

fun setdefault_append ::
  "pyfloat list \<Rightarrow> pyfloat \<Rightarrow> (pyfloat list \<times> pyfloat list) list
     \<Rightarrow> (pyfloat list \<times> pyfloat list) list" where
  "setdefault_append key val [] = [(key, [val])]"
| "setdefault_append key val ((k, vs) # bs) =
     (if py_key_eq k key then (k, vs @ [val]) # bs
      else (k, vs) # setdefault_append key val bs)"

definition group_step ::
  "string list \<Rightarrow> string \<Rightarrow> (pyfloat list \<times> pyfloat list) list \<Rightarrow> (string \<times> pyfloat) list
     \<Rightarrow> (pyfloat list \<times> pyfloat list) list" where
  "group_step keys value_key buckets row =
     (case row_entry keys value_key row of
        None \<Rightarrow> buckets
      | Some (key, val) \<Rightarrow> setdefault_append key val buckets)"

text \<open>One result dict: the key columns, then the mean under \<open>value_key\<close>.\<close>

definition group_out ::
  "string list \<Rightarrow> string \<Rightarrow> pyfloat list \<Rightarrow> pyfloat list \<Rightarrow> (string \<times> pyfloat) list" where
  "group_out keys value_key key vals =
     AList.update value_key
       (if vals = [] then Fin 0 else fdivn (fsum vals) (length vals))
       (foldl (\<lambda>out kv. AList.update (fst kv) (snd kv) out) [] (zip keys key))"

definition group_mean ::
  "(string \<times> pyfloat) list list \<Rightarrow> string list \<Rightarrow> string \<Rightarrow> (string \<times> pyfloat) list list" where
  "group_mean rows keys value_key =
     map (\<lambda>b. group_out keys value_key (fst b) (snd b))
       (foldl (group_step keys value_key) [] rows)"

text \<open>
  The words of the specification: the records that have all grouping columns and the value
  column, as pairs of key tuple and value; the values of the records that share a key tuple;
  the distinct elements of a list in the order of their first occurrence.
\<close>

definition good_pairs ::
  "(string \<times> pyfloat) list list \<Rightarrow> string list \<Rightarrow> string \<Rightarrow> (pyfloat list \<times> pyfloat) list" where
  "good_pairs rows keys value_key = List.map_filter (row_entry keys value_key) rows"

definition values_for ::
  "(string \<times> pyfloat) list list \<Rightarrow> string list \<Rightarrow> string \<Rightarrow> pyfloat list \<Rightarrow> pyfloat list" where
  "values_for rows keys value_key key =
     map snd (filter (\<lambda>p. fst p = key) (good_pairs rows keys value_key))"

definition first_seen :: "'a list \<Rightarrow> 'a list" where
  "first_seen xs = foldl (\<lambda>acc x. if x \<in> set acc then acc else acc @ [x]) [] xs"

text \<open>
  Ascending order of key tuples: \<open>\<le>\<close> on floats, on tuples the comparison of the first
  components that differ, and the key tuple that a result dict carries.
\<close>

fun fle :: "pyfloat \<Rightarrow> pyfloat \<Rightarrow> bool" where
  "fle NaN y = False"
| "fle x NaN = False"
| "fle NInf y = True"
| "fle x PInf = True"
| "fle (Fin a) (Fin b) = (a \<le> b)"
| "fle x y = False"

fun tuple_le :: "pyfloat list \<Rightarrow> pyfloat list \<Rightarrow> bool" where
  "tuple_le [] ys = True"
| "tuple_le (x # xs) [] = False"
| "tuple_le (x # xs) (y # ys) = (if x = y \<and> x \<noteq> NaN then tuple_le xs ys else fle x y)"

definition group_key :: "string list \<Rightarrow> (string \<times> pyfloat) list \<Rightarrow> pyfloat list" where
  "group_key keys entry = List.map_filter (map_of entry) keys"

section \<open>Time-window histogram merger (plot\_bdev.plot\_histograms)\<close>

text \<open>
  A row of \<open>load_histograms\<close>: a dict with six fixed keys, a record.  The numbers of a
  sample are taken to be finite, so they are rationals; the overall distribution is the part of
  \<open>plot_histograms\<close> that computes \<open>mids\<close> and \<open>pct\<close>, returned here as the list of the
  points that are plotted.
\<close>

record hist_row =
  io_size :: rat
  queue_depth :: rat
  run :: rat
  start_us :: rat
  end_us :: rat
  count :: rat

definition midpoint :: "hist_row \<Rightarrow> rat" where
  "midpoint row = (start_us row + end_us row) / 2"

text \<open>\<open>overall_counts[mid] = overall_counts.get(mid, 0.0) + row["count"]\<close>.\<close>

definition count_step :: "(rat \<times> rat) list \<Rightarrow> hist_row \<Rightarrow> (rat \<times> rat) list" where
  "count_step overall_counts row =
     AList.update (midpoint row)
       ((case map_of overall_counts (midpoint row) of None \<Rightarrow> 0 | Some c \<Rightarrow> c) + count row)
       overall_counts"

definition overall_counts :: "hist_row list \<Rightarrow> (rat \<times> rat) list" where
  "overall_counts hist_rows = foldl count_step [] hist_rows"

text \<open>
  \<open>total = sum(overall_counts.values()) or 1.0\<close>, \<open>mids = sorted(overall_counts.keys())\<close> and
  \<open>pct\<close>; every element of \<open>mids\<close> is a key of the dict, so the lookup finds it.
\<close>

definition overall_distribution :: "hist_row list \<Rightarrow> (rat \<times> rat) list" where
  "overall_distribution hist_rows =
     (let oc = overall_counts hist_rows
      in if oc = [] then []
         else (let s = sum_list (map snd oc);
                   total = (if s = 0 then 1 else s);
                   mids = sort (map fst oc)
               in map (\<lambda>m. (m, (case map_of oc m of None \<Rightarrow> 0 | Some c \<Rightarrow> c) / total * 100))
                    mids))"

section \<open>Verified properties\<close>

subsection \<open>Float addition and sums\<close>

lemma fadd_commute: "fadd x y = fadd y x"
  by (cases x; cases y) (simp_all add: add.commute)

lemma fadd_assoc: "fadd (fadd x y) z = fadd x (fadd y z)"
  by (cases x; cases y; cases z) (simp_all add: add.assoc)

lemma fadd_left_commute: "fadd x (fadd y z) = fadd y (fadd x z)"
  by (metis fadd_assoc fadd_commute)

lemma fadd_zero_right [simp]: "fadd x (Fin 0) = x"
  by (cases x) simp_all

lemma fadd_zero_left [simp]: "fadd (Fin 0) x = x"
  by (cases x) simp_all

lemma fsum_Nil [simp]: "fsum [] = Fin 0"
  by (simp add: fsum_def)

lemma fsum_snoc [simp]: "fsum (xs @ [x]) = fadd (fsum xs) x"
  by (simp add: fsum_def)

lemma foldl_fadd: "foldl fadd a xs = fadd a (foldl fadd (Fin 0) xs)"
proof (induction xs arbitrary: a)
  case Nil
  show ?case by simp
next
  case (Cons x xs)
  have "foldl fadd a (x # xs) = fadd (fadd a x) (foldl fadd (Fin 0) xs)"
    using Cons.IH [of "fadd a x"] by simp
  also have "\<dots> = fadd a (fadd x (foldl fadd (Fin 0) xs))"
    by (rule fadd_assoc)
  also have "fadd x (foldl fadd (Fin 0) xs) = foldl fadd (Fin 0) (x # xs)"
    using Cons.IH [of x] by simp
  finally show ?case .
qed

lemma fsum_Cons [simp]: "fsum (x # xs) = fadd x (fsum xs)"
  using foldl_fadd [of x xs] by (simp add: fsum_def)

subsection \<open>Histogram parser and bucketizer\<close>

lemma bucket_hist_snoc:
  "bucket_hist_simplified (hist @ [kv]) = bucket_step (bucket_hist_simplified hist) kv"
  by (simp add: bucket_hist_simplified_def)

lemma bucket_get_step:
  "bucket_get l (bucket_step b (k, v)) =
     (if bucket_rule k = Some l then fadd (bucket_get l b) v else bucket_get l b)"
  by (cases l) (auto simp: bucket_step_def bucket_rule_def split: option.splits)

lemma bucket_total_step:
  assumes "bucket_rule k \<noteq> None"
  shows "bucket_total (bucket_step b (k, v)) = fadd (bucket_total b) v"
proof -
  obtain l where l: "bucket_rule k = Some l" using assms by auto
  show ?thesis
    using l
    by (cases l)
       (auto simp: bucket_total_def bucket_step_def bucket_rule_def fadd_assoc fadd_commute
                fadd_left_commute split: option.splits if_splits)
qed

lemma bucket_total_hist:
  "\<forall>k \<in> fst ` set hist. bucket_rule k \<noteq> None \<Longrightarrow>
   bucket_total (bucket_hist_simplified hist) = fsum (map snd hist)"
proof (induction hist rule: rev_induct)
  case Nil
  show ?case by (simp add: bucket_hist_simplified_def buckets0_def bucket_total_def)
next
  case (snoc kv hist)
  obtain k v where kv: "kv = (k, v)" by (cases kv)
  have "bucket_rule k \<noteq> None" using snoc.prems kv by simp
  then show ?case using snoc by (simp add: bucket_hist_snoc kv bucket_total_step)
qed

lemma trim_id:
  assumes "s \<noteq> []" "\<not> P (hd s)" "\<not> P (last s)"
  shows "rev (dropWhile P (rev (dropWhile P s))) = s"
proof -
  have 1: "dropWhile P s = s" using assms(1,2) by (cases s) auto
  have 2: "dropWhile P (rev s) = rev s"
    using assms(1,3) by (simp add: dropWhile_eq_self_iff hd_rev)
  show ?thesis by (simp add: 1 2)
qed

lemma digit_not_blank: "is_digit c \<Longrightarrow> \<not> is_space c \<and> \<not> is_num_space c"
  by (auto simp: is_digit_def is_space_def is_num_space_def)

lemma digits_hd_last:
  assumes "list_all is_digit s" "s \<noteq> []"
  shows "is_digit (hd s)" "is_digit (last s)"
  using assms by (auto simp: list_all_iff)

lemma num_strip_digits:
  assumes "list_all is_digit s" "s \<noteq> []"
  shows "num_strip s = s"
  unfolding num_strip_def
  using digits_hd_last [OF assms] digit_not_blank by (intro trim_id assms(2)) auto

lemma digitpart_digits: "list_all is_digit s \<Longrightarrow> s \<noteq> [] \<Longrightarrow> digitpart s"
  by (induction s rule: digitpart.induct) (auto simp: is_digit_def)

lemma filter_digits: "list_all is_digit s \<Longrightarrow> filter is_digit s = s"
  by (simp add: list_all_iff)

lemma py_int_digits:
  assumes "list_all is_digit s" "s \<noteq> []"
  shows "py_int s = (if length s \<le> max_str_digits then Some (int (digits_val s)) else None)"
proof -
  obtain c r where s: "s = c # r" using assms(2) by (cases s) auto
  have c: "c \<noteq> CHR ''-''" "c \<noteq> CHR ''+''" using assms(1) s by (auto simp: is_digit_def)
  have st: "num_strip s = c # r" using num_strip_digits [OF assms] s by simp
  have lit: "int_literal s = (if length s \<le> max_str_digits then Some (digits_val s) else None)"
    using digitpart_digits [OF assms] filter_digits [OF assms(1)] by (simp add: int_literal_def)
  have "py_int s = (case int_literal (c # r) of None \<Rightarrow> None | Some n \<Rightarrow> Some (int n))"
    using c by (simp add: py_int_def st)
  then have "py_int s = (case int_literal s of None \<Rightarrow> None | Some n \<Rightarrow> Some (int n))"
    by (simp only: s)
  then show ?thesis
    by (simp only: lit) simp
qed

lemma hist_token_key:
  assumes "hist_token_match p = Some (key, val)"
    and "length (filter is_digit key) \<le> max_str_digits"
  shows "bucket_rule key \<noteq> None"
proof -
  let ?ds = "takeWhile is_digit p"
  have ds: "?ds \<noteq> []"
    using assms(1) by (auto simp: hist_token_match_def Let_def split: if_splits)
  have all: "list_all is_digit ?ds" by (simp add: list_all_iff) (meson set_takeWhileD)
  have "key = ?ds @ ''+'' \<or> key = ?ds"
    using assms(1) by (auto simp: hist_token_match_def Let_def split: if_splits list.splits)
  then show ?thesis
  proof
    assume "key = ?ds @ ''+''"
    then show ?thesis by (simp add: bucket_rule_def endswith_plus_def)
  next
    assume k: "key = ?ds"
    then have "length ?ds \<le> max_str_digits"
      using assms(2) filter_digits [OF all] by simp
    then show ?thesis
      using py_int_digits [OF all ds] k by (auto simp: bucket_rule_def)
  qed
qed

lemma hist_step_keys:
  assumes "\<forall>k \<in> fst ` set out.
             length (filter is_digit k) \<le> max_str_digits \<longrightarrow> bucket_rule k \<noteq> None"
  shows "\<forall>k \<in> fst ` set (hist_step out p).
           length (filter is_digit k) \<le> max_str_digits \<longrightarrow> bucket_rule k \<noteq> None"
proof (cases "hist_token_match p")
  case None
  then show ?thesis using assms by (simp add: hist_step_def)
next
  case (Some kv)
  obtain key val where kv: "kv = (key, val)" by (cases kv)
  have k: "length (filter is_digit key) \<le> max_str_digits \<longrightarrow> bucket_rule key \<noteq> None"
    using Some kv hist_token_key by simp
  show ?thesis
    using assms k Some kv
    by (cases "py_float val") (auto simp: hist_step_def dom_update)
qed

lemma foldl_hist_step_keys:
  "\<forall>k \<in> fst ` set out.
     length (filter is_digit k) \<le> max_str_digits \<longrightarrow> bucket_rule k \<noteq> None \<Longrightarrow>
   \<forall>k \<in> fst ` set (foldl hist_step out ps).
     length (filter is_digit k) \<le> max_str_digits \<longrightarrow> bucket_rule k \<noteq> None"
proof (induction ps arbitrary: out)
  case Nil
  then show ?case by simp
next
  case (Cons p ps)
  show ?case using Cons.IH [OF hist_step_keys [OF Cons.prems]] by simp
qed

lemma parse_hist_keys:
  "\<forall>k \<in> fst ` set (parse_hist h).
     length (filter is_digit k) \<le> max_str_digits \<longrightarrow> bucket_rule k \<noteq> None"
proof (cases h)
  case (PyStr s)
  have "\<forall>k \<in> fst ` set ([] :: (string \<times> pyfloat) list).
          length (filter is_digit k) \<le> max_str_digits \<longrightarrow> bucket_rule k \<noteq> None"
    by simp
  from foldl_hist_step_keys [OF this] show ?thesis
    by (simp add: parse_hist_def PyStr)
qed (simp_all add: parse_hist_def)

lemma split_on_absent: "d \<notin> set s \<Longrightarrow> split_on d s = [s]"
  by (induction s) auto

lemma long_key_parsed:
  assumes "list_all is_digit ds" "ds \<noteq> []"
  shows "parse_hist (PyStr (ds @ '':5'')) = [(ds, Fin 5)]"
proof -
  let ?p = "ds @ '':5''"
  have dig: "\<And>c. c \<in> set ds \<Longrightarrow> is_digit c" using assms(1) by (simp add: list_all_iff)
  have hd: "hd ?p = hd ds" using assms(2) by simp
  have sp: "\<not> is_space (hd ?p)" "\<not> is_space (last ?p)"
    using digits_hd_last(1) [OF assms] digit_not_blank hd by (auto simp: is_space_def)
  have strip: "strip ?p = ?p"
    unfolding strip_def using sp by (intro trim_id) auto
  have "CHR '','' \<notin> set ?p" using dig by (auto simp: is_digit_def)
  then have split: "split_on CHR '','' ?p = [?p]" by (rule split_on_absent)
  have nd: "\<not> is_digit CHR '':''" by (simp add: is_digit_def)
  have tw: "takeWhile is_digit ?p = ds" using dig nd by (simp add: takeWhile_append2)
  have dw: "dropWhile is_digit ?p = '':5''" using dig nd by (simp add: dropWhile_append2)
  have m: "hist_token_match ?p = Some (ds, ''5'')"
    using assms(2)
    by (simp add: hist_token_match_def Let_def tw dw is_space_def is_numch_def)
  have f: "py_float ''5'' = Some (Fin 5)" by code_simp
  have "hist_step [] ?p = [(ds, Fin 5)]" by (simp add: hist_step_def m f)
  then show ?thesis
    using assms(2) by (simp add: parse_hist_def strip split)
qed

lemma long_key_skipped:
  assumes "list_all is_digit ds" "max_str_digits < length ds"
  shows "bucket_hist_simplified [(ds, v)] = buckets0"
proof -
  have ne: "ds \<noteq> []" using assms(2) by auto
  have "last ds \<noteq> CHR ''+''"
    using digits_hd_last(2) [OF assms(1) ne] by (auto simp: is_digit_def)
  then have e: "\<not> endswith_plus ds" by (simp add: endswith_plus_def)
  have "py_int ds = None" using py_int_digits [OF assms(1) ne] assms(2) by simp
  then show ?thesis using e by (simp add: bucket_hist_simplified_def bucket_step_def)
qed

text \<open>
  C1 (conservation).  The claim fails for a key that the parser accepts and \<open>int\<close> refuses:
  a key of 4301 digits is stored by the parser with its count 5, and the bucketizer skips it,
  so the counts of the mapping add up to 5 and the six buckets to 0.
\<close>

theorem bucket_conservation_counterexample:
  "fsum (map snd (parse_hist (PyStr (replicate 4301 CHR ''1'' @ '':5'')))) = Fin 5
   \<and> bucket_total (bucket_hist_simplified (parse_hist (PyStr (replicate 4301 CHR ''1'' @ '':5''))))
       = Fin 0"
proof -
  let ?ds = "replicate 4301 CHR ''1''"
  have all: "list_all is_digit ?ds" by (simp add: list_all_iff is_digit_def)
  have ne: "?ds \<noteq> []" by simp
  have long: "max_str_digits < length ?ds" by (simp add: max_str_digits_def)
  have p: "parse_hist (PyStr (?ds @ '':5'')) = [(?ds, Fin 5)]"
    by (rule long_key_parsed [OF all ne])
  have b: "bucket_hist_simplified [(?ds, Fin 5)] = buckets0"
    by (rule long_key_skipped [OF all long])
  show ?thesis
    by (simp add: p b buckets0_def bucket_total_def)
qed

text \<open>
  C1 as amended.  When every key of the parsed mapping has at most 4300 digits and the counts
  are non-negative whole numbers with a total of at most \<open>2 ^ 53\<close>, so that no float addition
  rounds, the six bucket counts of the bucketizer applied to the mapping add up to the sum of
  all counts of the mapping: every such key is an overflow key or an integer, and no entry is
  skipped.
\<close>

theorem bucket_conservation:
  assumes "\<forall>k \<in> fst ` set (parse_hist h). length (filter is_digit k) \<le> max_str_digits"
    and "exact_counts (parse_hist h)"
  shows "bucket_total (bucket_hist_simplified (parse_hist h)) = fsum (map snd (parse_hist h))"
proof -
  have "\<forall>k \<in> fst ` set (parse_hist h). bucket_rule k \<noteq> None"
    using assms(1) parse_hist_keys [of h] by blast
  then show ?thesis by (rule bucket_total_hist)
qed

theorem bucket_conservation_witness:
  "exact_counts (parse_hist (PyStr ''0:7, junk, 3:2, 32+:1''))
   \<and> bucket_total (bucket_hist_simplified (parse_hist (PyStr ''0:7, junk, 3:2, 32+:1''))) =
       Fin 10"
proof -
  have p: "parse_hist (PyStr ''0:7, junk, 3:2, 32+:1'') =
             [(''0'', Fin 7), (''3'', Fin 2), (''32+'', Fin 1)]"
    by code_simp
  have k: "\<forall>k \<in> fst ` set (parse_hist (PyStr ''0:7, junk, 3:2, 32+:1'')).
             length (filter is_digit k) \<le> max_str_digits"
    unfolding p by (simp add: max_str_digits_def is_digit_def)
  have e: "exact_counts (parse_hist (PyStr ''0:7, junk, 3:2, 32+:1''))"
    unfolding p by code_simp
  have s: "fsum (map snd (parse_hist (PyStr ''0:7, junk, 3:2, 32+:1''))) = Fin 10"
    unfolding p by code_simp
  show ?thesis
    using e bucket_conservation [OF k e] s by simp
qed

text \<open>
  C3 (mapping rule).  Each bucket of the result holds the sum of the counts of exactly the
  keys that the rule sends to it: overflow keys and integers outside 0..16 to \<open>17+\<close>, 0 to
  \<open>Empty (0)\<close>, 1 to \<open>Single (1)\<close>, 2..4, 5..8 and 9..16 to their ranges, and keys that
  are not integers to no bucket.  The scenario of the specification evaluates as stated.
\<close>

theorem bucket_mapping_rule:
  "bucket_get l (bucket_hist_simplified hist) =
     fsum (map snd (filter (\<lambda>kv. bucket_rule (fst kv) = Some l) hist))
   \<and> bucket_hist_simplified (parse_hist (PyStr ''0:50, 1:20, 3:5, 9:3, 40+:2'')) =
       \<lparr>empty0 = Fin 50, single1 = Fin 20, b2_4 = Fin 5, b5_8 = Fin 0, b9_16 = Fin 3,
        b17p = Fin 2\<rparr>"
proof
  show "bucket_get l (bucket_hist_simplified hist) =
          fsum (map snd (filter (\<lambda>kv. bucket_rule (fst kv) = Some l) hist))"
  proof (induction hist rule: rev_induct)
    case Nil
    show ?case by (cases l) (simp_all add: bucket_hist_simplified_def buckets0_def)
  next
    case (snoc kv hist)
    obtain k v where kv: "kv = (k, v)" by (cases kv)
    show ?case by (simp add: bucket_hist_snoc kv bucket_get_step snoc.IH)
  qed
  show "bucket_hist_simplified (parse_hist (PyStr ''0:50, 1:20, 3:5, 9:3, 40+:2'')) =
          \<lparr>empty0 = Fin 50, single1 = Fin 20, b2_4 = Fin 5, b5_8 = Fin 0, b9_16 = Fin 3,
           b17p = Fin 2\<rparr>"
    by code_simp
qed

theorem bucket_mapping_rule_witness:
  "bucket_get B2_4 (bucket_hist_simplified
      [(''3'', Fin 5), (''x'', Fin 1), (''7+'', Fin 2), ('' 4 '', Fin 1), (''-2'', Fin 9)]) = Fin 6
   \<and> bucket_get B17p (bucket_hist_simplified
      [(''3'', Fin 5), (''x'', Fin 1), (''7+'', Fin 2), ('' 4 '', Fin 1), (''-2'', Fin 9)]) = Fin 11"
proof -
  let ?h = "[(''3'', Fin 5), (''x'', Fin 1), (''7+'', Fin 2), ('' 4 '', Fin 1), (''-2'', Fin 9)]"
  have a: "fsum (map snd (filter (\<lambda>kv. bucket_rule (fst kv) = Some B2_4) ?h)) = Fin 6"
    by code_simp
  have b: "fsum (map snd (filter (\<lambda>kv. bucket_rule (fst kv) = Some B17p) ?h)) = Fin 11"
    by code_simp
  show ?thesis
    using bucket_mapping_rule [of B2_4 ?h] bucket_mapping_rule [of B17p ?h] a b by simp
qed

subsection \<open>Per-core cell decoder\<close>

lemma replace2_absent: "\<not> contains2 a b s \<Longrightarrow> replace2 a b r s = s"
  by (induction a b r s rule: replace2.induct) auto

lemma py_float_empty: "py_float [] = None"
  by code_simp

lemma map_filter_nonempty:
  "List.map_filter py_float (filter (\<lambda>p. p \<noteq> []) ps) = List.map_filter py_float ps"
  by (induction ps) (auto simp: py_float_empty split: option.splits)

lemma map_filter_map: "List.map_filter f (map g xs) = List.map_filter (\<lambda>x. f (g x)) xs"
  by (induction xs) (auto split: option.splits)

lemma line_values_spec:
  "line_values line = List.map_filter (\<lambda>tok. py_float (strip tok)) (split_on CHR '','' line)"
  by (simp add: line_values_def map_filter_nonempty map_filter_map comp_def)

lemma unescape_guard:
  "(if contains2 (CHR 0x5C) (CHR ''n'') t \<or> contains2 (CHR 0x5C) (CHR ''r'') t
    then replace2 (CHR 0x5C) (CHR ''n'') (CHR 0x0A) (replace2 (CHR 0x5C) (CHR ''r'') (CHR 0x0D) t)
    else t) =
   replace2 (CHR 0x5C) (CHR ''n'') (CHR 0x0A) (replace2 (CHR 0x5C) (CHR ''r'') (CHR 0x0D) t)"
  by (simp add: replace2_absent)

lemma parse_text_spec: "parse_per_core_values (PyStr s) = flat_numeric_tokens s"
proof -
  let ?t = "replace2 (CHR 0x5C) (CHR ''n'') (CHR 0x0A)
              (replace2 (CHR 0x5C) (CHR ''r'') (CHR 0x0D) (strip s))"
  have 1: "parse_per_core_values (PyStr s) =
             (if ?t = [] then [] else concat (map line_values (splitlines ?t)))"
    unfolding parse_per_core_values_def Let_def pyval.case unescape_guard ..
  have 2: "?t = [] \<Longrightarrow> concat (map line_values (splitlines ?t)) = []"
    by (simp add: splitlines_def)
  have 3: "(\<lambda>line. List.map_filter (\<lambda>tok. py_float (strip tok)) (split_on CHR '','' line)) =
             line_values"
    by (rule ext) (simp add: line_values_spec)
  have 4: "flat_numeric_tokens s = concat (map line_values (splitlines ?t))"
    unfolding flat_numeric_tokens_def 3 ..
  show ?thesis
    using 1 2 4 by (cases "?t = []") simp_all
qed

text \<open>
  C2 (per-core aggregate).  The aggregate of a cell is the arithmetic mean of its list of
  values, and NaN, the missing marker, when that list is empty.  For a text cell the list is
  the flattened list of the numeric tokens of the cell (line-break markers un-escaped, lines
  and commas split, tokens trimmed, tokens that are not floats dropped), so a cell without
  any numeric token has the aggregate NaN.
\<close>

theorem per_core_mean_flat:
  "per_core_mean cell =
     (if parse_per_core_values cell = [] then NaN else fmean (parse_per_core_values cell))
   \<and> parse_per_core_values (PyStr s) = flat_numeric_tokens s"
  by (simp add: per_core_mean_def parse_text_spec Let_def fmean_def)

theorem per_core_mean_flat_witness:
  "per_core_mean (PyStr (''10,20'' @ [CHR 0x5C, CHR ''n''] @ ''30'')) = Fin 20
   \<and> per_core_mean (PyStr ''abc, n/a'') = NaN"
proof -
  let ?s = "''10,20'' @ [CHR 0x5C, CHR ''n''] @ ''30''"
  have a: "flat_numeric_tokens ?s = [Fin 10, Fin 20, Fin 30]"
    by code_simp
  have b: "flat_numeric_tokens ''abc, n/a'' = []"
    by code_simp
  have c: "fmean [Fin 10, Fin 20, Fin 30] = Fin 20"
    by code_simp
  have 1: "per_core_mean (PyStr ?s) = Fin 20"
    using per_core_mean_flat [of "PyStr ?s" ?s] a c by simp
  have 2: "per_core_mean (PyStr ''abc, n/a'') = NaN"
    using per_core_mean_flat [of "PyStr ''abc, n/a''" "''abc, n/a''"] b by simp
  show ?thesis using 1 2 by simp
qed

text \<open>
  C10 (numeric cells).  A cell that is already a number decodes to the empty list when it is
  NaN, so that its aggregate is NaN, and to the one-element list of its value otherwise,
  whose aggregate is that value.
\<close>

theorem per_core_numeric:
  "parse_per_core_values (PyNum x) = (if x = NaN then [] else [x])
   \<and> per_core_mean (PyNum NaN) = NaN
   \<and> (x \<noteq> NaN \<longrightarrow> per_core_mean (PyNum x) = x)"
  by (cases x) (simp_all add: per_core_mean_def parse_per_core_values_def fsum_def Let_def)

theorem per_core_numeric_witness:
  "Fin 3 \<noteq> NaN \<and> parse_per_core_values (PyNum (Fin 3)) = [Fin 3]
   \<and> per_core_mean (PyNum (Fin 3)) = Fin 3"
  using per_core_numeric [of "Fin 3"] by simp

subsection \<open>Row reconstruction\<close>

lemma row_start_nonempty: "row_start l \<Longrightarrow> l \<noteq> []"
  by (auto simp: row_start_def)

lemma collect_all_starts:
  "\<forall>l \<in> set ls. row_start l \<Longrightarrow> foldl collect_step acc ls = acc @ ls"
proof (induction ls arbitrary: acc)
  case Nil
  show ?case by simp
next
  case (Cons l ls)
  have "collect_step acc l = acc @ [l]"
    using Cons.prems row_start_nonempty [of l] by (simp add: collect_step_def)
  then show ?case using Cons by simp
qed

lemma pad_row_exact: "header_len \<le> length row \<Longrightarrow> pad_row header_len row = row"
  by (simp add: pad_row_def)

text \<open>
  C5 (idempotence on well-formed input).  When every line after the header starts with digits
  and a comma and tokenizes to as many cells as the header, the reconstructed rows are the
  line-by-line parse of those lines.
\<close>

theorem reconstruct_wellformed:
  assumes "\<forall>l \<in> set rest. row_start l \<and> length (csv_row l) = length (csv_row h)"
  shows "read_multicore_csv (h # rest) = Inr (csv_row h, map csv_row rest)"
proof -
  have 1: "foldl collect_step [] rest = rest"
    using collect_all_starts [of rest "[]"] assms by simp
  have 2: "map (\<lambda>row_text. pad_row (length (csv_row h)) (csv_row row_text)) rest = map csv_row rest"
    using assms by (intro map_cong refl) (simp add: pad_row_exact)
  show ?thesis
    by (simp add: read_multicore_csv_def Let_def 1 2)
qed

theorem reconstruct_wellformed_witness:
  "read_multicore_csv [''id,QD,IOPS'', ''1,4,0.5'', ''2,8,0.25''] =
     Inr ([''id'', ''QD'', ''IOPS''], [[''1'', ''4'', ''0.5''], [''2'', ''8'', ''0.25'']])"
proof -
  have h: "\<forall>l \<in> set [''1,4,0.5'', ''2,8,0.25'']. row_start l \<and> length (csv_row l) = length (csv_row ''id,QD,IOPS'')"
    by code_simp
  have v: "csv_row ''id,QD,IOPS'' = [''id'', ''QD'', ''IOPS'']"
     "map csv_row [''1,4,0.5'', ''2,8,0.25''] = [[''1'', ''4'', ''0.5''], [''2'', ''8'', ''0.25'']]"
    by code_simp+
  show ?thesis
    using reconstruct_wellformed [OF h] v by simp
qed

text \<open>
  C6 (padding).  For a file that is not empty the reconstructor returns normally, with one row
  for each buffered logical row; a row whose tokenization is shorter than the header is that
  tokenization followed by empty strings, up to exactly the header's length.
\<close>

theorem short_rows_padded:
  assumes "lines \<noteq> []"
  shows "\<exists>header rows.
           read_multicore_csv lines = Inr (header, rows)
           \<and> header = csv_row (hd lines)
           \<and> length rows = length (foldl collect_step [] (tl lines))
           \<and> (\<forall>i < length rows.
                 length (csv_row (foldl collect_step [] (tl lines) ! i)) < length header \<longrightarrow>
                 rows ! i = csv_row (foldl collect_step [] (tl lines) ! i)
                              @ replicate (length header
                                   - length (csv_row (foldl collect_step [] (tl lines) ! i))) []
                 \<and> length (rows ! i) = length header)"
  using assms by (simp add: read_multicore_csv_def Let_def pad_row_def)

theorem short_rows_padded_witness:
  "read_multicore_csv [''id,a,b,c,d'', ''1,x,y''] =
     Inr ([''id'', ''a'', ''b'', ''c'', ''d''], [[''1'', ''x'', ''y'', [], []]])"
proof -
  have ne: "[''id,a,b,c,d'', ''1,x,y''] \<noteq> ([] :: string list)" by simp
  have c: "foldl collect_step [] (tl [''id,a,b,c,d'', ''1,x,y'']) = [''1,x,y'']"
    by code_simp
  have r: "csv_row ''1,x,y'' = [''1'', ''x'', ''y'']" "csv_row ''id,a,b,c,d'' = [''id'', ''a'', ''b'', ''c'', ''d'']"
    by code_simp+
  from short_rows_padded [OF ne] obtain header rows where
    1: "read_multicore_csv [''id,a,b,c,d'', ''1,x,y''] = Inr (header, rows)"
    and 2: "header = csv_row (hd [''id,a,b,c,d'', ''1,x,y''])"
    and 3: "length rows = length (foldl collect_step [] (tl [''id,a,b,c,d'', ''1,x,y'']))"
    and 4: "\<forall>i < length rows.
                 length (csv_row (foldl collect_step [] (tl [''id,a,b,c,d'', ''1,x,y'']) ! i)) < length header \<longrightarrow>
                 rows ! i = csv_row (foldl collect_step [] (tl [''id,a,b,c,d'', ''1,x,y'']) ! i)
                              @ replicate (length header
                                   - length (csv_row (foldl collect_step [] (tl [''id,a,b,c,d'', ''1,x,y'']) ! i))) []
                 \<and> length (rows ! i) = length header"
    by blast
  have hd: "header = [''id'', ''a'', ''b'', ''c'', ''d'']" using 2 r by simp
  have len: "length rows = 1" using 3 c by simp
  then obtain row where rows: "rows = [row]" by (cases rows) auto
  have "row = [''1'', ''x'', ''y'', [], []]"
    using 4 rows c r hd by (simp add: numeral_eq_Suc)
  then show ?thesis using 1 hd rows by simp
qed

subsection \<open>Scalar coercion\<close>

lemma coerce_cell_total: "\<exists>x. coerce_cell v = Inr x"
  by (cases v) (auto simp: coerce_cell_def float_of_cell_def split: option.splits)

lemma load_cells_total: "\<exists>out'. load_cells raw out = Inr out'"
proof (induction raw out rule: load_cells.induct)
  case (1 out)
  show ?case by simp
next
  case (2 k v kvs out)
  obtain x where x: "coerce_cell v = Inr x" using coerce_cell_total by blast
  show ?case
  proof (cases "k = Some ''Completions_Per_Poll_Hist''")
    case True
    then show ?thesis using 2(1) by simp
  next
    case False
    then show ?thesis using 2(2) [OF False x] x by simp
  qed
qed

lemma load_results_total: "\<exists>rows. load_results raws = Inr rows \<and> length rows = length raws"
proof (induction raws)
  case Nil
  show ?case by simp
next
  case (Cons raw raws)
  obtain out where "load_cells raw [] = Inr out" using load_cells_total by blast
  then show ?case using Cons by auto
qed

text \<open>
  C7 (scalar coercion).  An absent or empty cell is stored as 0.0, text that \<open>float\<close>
  rejects as 0.0, numeric text as its value; the coercion of any cell returns a value, no
  exception leaves it, and \<open>load_results\<close> returns one record for every row it reads.
\<close>

theorem coercion_total:
  "coerce_cell Missing = Inr (Fin 0)
   \<and> coerce_cell (Text []) = Inr (Fin 0)
   \<and> (py_float s = None \<longrightarrow> coerce_cell (Text s) = Inr (Fin 0))
   \<and> (py_float s = Some x \<longrightarrow> coerce_cell (Text s) = Inr x)
   \<and> (\<exists>y. coerce_cell v = Inr y)
   \<and> (\<exists>rows. load_results raws = Inr rows \<and> length rows = length raws)"
proof -
  have e: "py_float [] = None" by (rule py_float_empty)
  have "coerce_cell Missing = Inr (Fin 0)" "coerce_cell (Text []) = Inr (Fin 0)"
    by (simp_all add: coerce_cell_def)
  moreover have "py_float s = None \<longrightarrow> coerce_cell (Text s) = Inr (Fin 0)"
    by (simp add: coerce_cell_def float_of_cell_def)
  moreover have "py_float s = Some x \<longrightarrow> coerce_cell (Text s) = Inr x"
    using e by (auto simp: coerce_cell_def float_of_cell_def)
  ultimately show ?thesis
    using coerce_cell_total [of v] load_results_total [of raws] by blast
qed

theorem coercion_total_witness:
  "py_float ''abc'' = None \<and> coerce_cell (Text ''abc'') = Inr (Fin 0)
   \<and> py_float ''1.5e3'' = Some (Fin 1500) \<and> coerce_cell (Text ''1.5e3'') = Inr (Fin 1500)
   \<and> coerce_cell (Surplus [''9'']) = Inr (Fin 0)
   \<and> load_results [[(Some ''QD'', Text ''4''), (Some ''x'', Text ''abc''), (Some ''y'', Missing),
                     (None, Surplus [''9''])]] =
       Inr [[(Some ''Queue Depth'', Fin 4), (Some ''x'', Fin 0), (Some ''y'', Fin 0), (None, Fin 0)]]"
proof -
  have a: "py_float ''abc'' = None" by code_simp
  have b: "py_float ''1.5e3'' = Some (Fin 1500)" by code_simp
  have c: "coerce_cell (Surplus [''9'']) = Inr (Fin 0)" by code_simp
  have d: "load_results [[(Some ''QD'', Text ''4''), (Some ''x'', Text ''abc''), (Some ''y'', Missing),
                     (None, Surplus [''9''])]] =
       Inr [[(Some ''Queue Depth'', Fin 4), (Some ''x'', Fin 0), (Some ''y'', Fin 0), (None, Fin 0)]]"
    by code_simp
  show ?thesis
    using coercion_total [of "''abc''" "Fin 0" Missing "[]"]
      coercion_total [of "''1.5e3''" "Fin 1500" Missing "[]"] a b c d
    by simp
qed

subsection \<open>Grouped aggregator\<close>

lemma first_seen_snoc:
  "first_seen (xs @ [x]) = (if x \<in> set (first_seen xs) then first_seen xs else first_seen xs @ [x])"
  by (simp add: first_seen_def)

lemma set_first_seen: "set (first_seen xs) = set xs"
  by (induction xs rule: rev_induct) (auto simp: first_seen_snoc, simp add: first_seen_def)

lemma distinct_first_seen: "distinct (first_seen xs)"
  by (induction xs rule: rev_induct) (simp_all add: first_seen_snoc, simp add: first_seen_def)

lemma good_pairs_snoc:
  "good_pairs (rows @ [r]) keys vk =
     good_pairs rows keys vk @ (case row_entry keys vk r of None \<Rightarrow> [] | Some p \<Rightarrow> [p])"
  by (simp add: good_pairs_def List.map_filter_def split: option.splits)

lemma py_key_eq_plain: "NaN \<notin> set key \<Longrightarrow> py_key_eq k key = (k = key)"
  by (auto simp: py_key_eq_def)

lemma setdefault_append_map:
  assumes "NaN \<notin> set key" "distinct fs"
  shows "setdefault_append key val (map (\<lambda>k. (k, f k)) fs) =
           (if key \<in> set fs then map (\<lambda>k. (k, if k = key then f k @ [val] else f k)) fs
            else map (\<lambda>k. (k, f k)) fs @ [(key, [val])])"
  using assms(2)
proof (induction fs)
  case Nil
  show ?case by simp
next
  case (Cons k fs)
  show ?case
  proof (cases "k = key")
    case True
    have "key \<notin> set fs" using Cons.prems True by simp
    then have "map (\<lambda>k. (k, if k = key then f k @ [val] else f k)) fs = map (\<lambda>k. (k, f k)) fs"
      by (intro map_cong refl) auto
    then show ?thesis using True by (simp add: py_key_eq_plain [OF assms(1)])
  next
    case False
    then show ?thesis using Cons by (simp add: py_key_eq_plain [OF assms(1)])
  qed
qed

lemma values_for_absent:
  "key \<notin> fst ` set (good_pairs rows keys vk) \<Longrightarrow> values_for rows keys vk key = []"
  by (auto simp: values_for_def filter_empty_conv)

lemma group_buckets:
  assumes "\<forall>p \<in> set (good_pairs rows keys vk). NaN \<notin> set (fst p)"
  shows "foldl (group_step keys vk) [] rows =
           map (\<lambda>key. (key, values_for rows keys vk key))
             (first_seen (map fst (good_pairs rows keys vk)))"
  using assms
proof (induction rows rule: rev_induct)
  case Nil
  show ?case by (simp add: good_pairs_def first_seen_def List.map_filter_simps)
next
  case (snoc r rows)
  have prev: "\<forall>p \<in> set (good_pairs rows keys vk). NaN \<notin> set (fst p)"
    using snoc.prems by (simp add: good_pairs_snoc)
  note IH = snoc.IH [OF prev]
  show ?case
  proof (cases "row_entry keys vk r")
    case None
    then show ?thesis
      using IH by (simp add: group_step_def good_pairs_snoc values_for_def)
  next
    case (Some p)
    obtain key val where p: "p = (key, val)" by (cases p)
    have nan: "NaN \<notin> set key" using snoc.prems Some p by (simp add: good_pairs_snoc)
    let ?ks = "map fst (good_pairs rows keys vk)"
    have vf: "\<And>k. values_for (rows @ [r]) keys vk k =
                  (if k = key then values_for rows keys vk k @ [val] else values_for rows keys vk k)"
      by (simp add: values_for_def good_pairs_snoc Some p)
    have step: "foldl (group_step keys vk) [] (rows @ [r]) =
                  setdefault_append key val
                    (map (\<lambda>k. (k, values_for rows keys vk k)) (first_seen ?ks))"
      by (simp add: group_step_def Some p IH)
    show ?thesis
    proof (cases "key \<in> set ?ks")
      case True
      then show ?thesis
        unfolding step
        by (simp add: setdefault_append_map [OF nan distinct_first_seen] set_first_seen
              good_pairs_snoc Some p first_seen_snoc vf)
    next
      case False
      then have "values_for rows keys vk key = []"
        using values_for_absent [of key rows keys vk] by simp
      moreover have "map (\<lambda>k. (k, values_for (rows @ [r]) keys vk k)) (first_seen ?ks) =
                       map (\<lambda>k. (k, values_for rows keys vk k)) (first_seen ?ks)"
        using False by (intro map_cong refl) (auto simp: vf set_first_seen)
      ultimately show ?thesis
        unfolding step using False
        by (simp add: setdefault_append_map [OF nan distinct_first_seen] set_first_seen
              good_pairs_snoc Some p first_seen_snoc vf)
    qed
  qed
qed



lemma map_of_group_out:
  "map_of (group_out keys vk key vals) vk =
     Some (if vals = [] then Fin 0 else fdivn (fsum vals) (length vals))"
  by (simp add: group_out_def update_conv)

text \<open>
  C4 (grouping and order).  The claim that the aggregator returns its entries in ascending
  order of the key tuple fails: the entries come in the order in which the key tuples first
  occur in the input, and it is the callers that sort them.
\<close>

theorem group_mean_order_counterexample:
  "group_mean [[(''qd'', Fin 2), (''val'', Fin 5)], [(''qd'', Fin 1), (''val'', Fin 10)]]
     [''qd''] ''val'' =
     [[(''qd'', Fin 2), (''val'', Fin 5)], [(''qd'', Fin 1), (''val'', Fin 10)]]
   \<and> \<not> sorted_wrt tuple_le
         (map (group_key [''qd''])
            (group_mean [[(''qd'', Fin 2), (''val'', Fin 5)], [(''qd'', Fin 1), (''val'', Fin 10)]]
               [''qd''] ''val''))"
  by code_simp

text \<open>
  C4 as amended.  When no grouping value is NaN, the result has one entry for each distinct
  key tuple, with the mean of the values of the records that share the tuple, in the order of
  the first occurrence of the tuples; the records of the scenario, in the order given, yield
  the entry for \<open>qd = 1\<close> with 15 and then the one for \<open>qd = 2\<close> with 5.
\<close>

theorem group_mean_first_seen:
  assumes "\<forall>p \<in> set (good_pairs rows keys vk). NaN \<notin> set (fst p)"
  shows "group_mean rows keys vk =
           map (\<lambda>key. group_out keys vk key (values_for rows keys vk key))
             (first_seen (map fst (good_pairs rows keys vk)))
         \<and> (\<forall>key \<in> set (map fst (good_pairs rows keys vk)).
               map_of (group_out keys vk key (values_for rows keys vk key)) vk =
                 Some (fmean (values_for rows keys vk key)))
         \<and> group_mean [[(''qd'', Fin 1), (''val'', Fin 10)], [(''qd'', Fin 1), (''val'', Fin 20)],
                        [(''qd'', Fin 2), (''val'', Fin 5)]] [''qd''] ''val'' =
             [[(''qd'', Fin 1), (''val'', Fin 15)], [(''qd'', Fin 2), (''val'', Fin 5)]]"
proof -
  have 1: "group_mean rows keys vk =
             map (\<lambda>key. group_out keys vk key (values_for rows keys vk key))
               (first_seen (map fst (good_pairs rows keys vk)))"
    by (simp add: group_mean_def group_buckets [OF assms] comp_def)
  have 2: "\<forall>key \<in> set (map fst (good_pairs rows keys vk)).
               map_of (group_out keys vk key (values_for rows keys vk key)) vk =
                 Some (fmean (values_for rows keys vk key))"
  proof
    fix key
    assume "key \<in> set (map fst (good_pairs rows keys vk))"
    then have "values_for rows keys vk key \<noteq> []"
      by (auto simp: values_for_def filter_empty_conv)
    then show "map_of (group_out keys vk key (values_for rows keys vk key)) vk =
                 Some (fmean (values_for rows keys vk key))"
      by (simp add: map_of_group_out fmean_def)
  qed
  have 3: "group_mean [[(''qd'', Fin 1), (''val'', Fin 10)], [(''qd'', Fin 1), (''val'', Fin 20)],
                        [(''qd'', Fin 2), (''val'', Fin 5)]] [''qd''] ''val'' =
             [[(''qd'', Fin 1), (''val'', Fin 15)], [(''qd'', Fin 2), (''val'', Fin 5)]]"
    by code_simp
  show ?thesis using 1 2 3 by blast
qed

theorem group_mean_first_seen_witness:
  "group_mean [[(''qd'', Fin 2), (''val'', Fin 5)], [(''x'', Fin 7)],
               [(''qd'', Fin 1), (''val'', Fin 10)], [(''qd'', Fin 2), (''val'', Fin 6)]]
     [''qd''] ''val'' =
     [[(''qd'', Fin 2), (''val'', Fin (11 / 2))], [(''qd'', Fin 1), (''val'', Fin 10)]]"
proof -
  let ?rows = "[[(''qd'', Fin 2), (''val'', Fin 5)], [(''x'', Fin 7)],
                [(''qd'', Fin 1), (''val'', Fin 10)], [(''qd'', Fin 2), (''val'', Fin 6)]]"
  have h: "\<forall>p \<in> set (good_pairs ?rows [''qd''] ''val''). NaN \<notin> set (fst p)"
    by code_simp
  have v: "map (\<lambda>key. group_out [''qd''] ''val'' key (values_for ?rows [''qd''] ''val'' key))
             (first_seen (map fst (good_pairs ?rows [''qd''] ''val''))) =
           [[(''qd'', Fin 2), (''val'', Fin (11 / 2))], [(''qd'', Fin 1), (''val'', Fin 10)]]"
    by code_simp
  show ?thesis
    using group_mean_first_seen [OF h] v by simp
qed



subsection \<open>Time-window histogram merger\<close>

lemma overall_counts_snoc:
  "overall_counts (rows @ [r]) = count_step (overall_counts rows) r"
  by (simp add: overall_counts_def)

lemma overall_counts_keys: "fst ` set (overall_counts rows) = midpoint ` set rows"
  by (induction rows rule: rev_induct)
     (auto simp: overall_counts_snoc count_step_def dom_update, simp add: overall_counts_def)

lemma overall_counts_distinct: "distinct (map fst (overall_counts rows))"
  by (induction rows rule: rev_induct)
     (simp_all add: overall_counts_snoc count_step_def distinct_update, simp add: overall_counts_def)

lemma overall_counts_lookup:
  "map_of (overall_counts rows) m =
     (if m \<in> midpoint ` set rows
      then Some (sum_list (map count (filter (\<lambda>r. midpoint r = m) rows)))
      else None)"
proof (induction rows rule: rev_induct)
  case Nil
  show ?case by (simp add: overall_counts_def)
next
  case (snoc r rows)
  have none: "\<And>x. x \<notin> midpoint ` set rows \<Longrightarrow> filter (\<lambda>r. midpoint r = x) rows = []"
    by (auto simp: filter_empty_conv)
  show ?case
    using snoc none by (auto simp: overall_counts_snoc count_step_def update_conv)
qed

lemma sum_update:
  "distinct (map fst al) \<Longrightarrow>
   sum_list (map snd (AList.update k v al)) =
     sum_list (map snd al) - (case map_of al k of None \<Rightarrow> 0 | Some c \<Rightarrow> c) + (v :: rat)"
proof (induction al)
  case Nil
  show ?case by simp
next
  case (Cons p al)
  obtain k' c' where p: "p = (k', c')" by (cases p)
  show ?case
  proof (cases "k' = k")
    case True
    then show ?thesis by (simp add: p)
  next
    case False
    then show ?thesis using Cons by (simp add: p)
  qed
qed

lemma overall_counts_total:
  "sum_list (map snd (overall_counts rows)) = sum_list (map count rows)"
proof (induction rows rule: rev_induct)
  case Nil
  show ?case by (simp add: overall_counts_def)
next
  case (snoc r rows)
  show ?case
    using snoc
    by (simp add: overall_counts_snoc count_step_def sum_update [OF overall_counts_distinct]
          split: option.splits)
qed

lemma overall_mids:
  "sort (map fst (overall_counts rows)) = sorted_list_of_set (midpoint ` set rows)"
proof -
  have "sorted_list_of_set (set (map fst (overall_counts rows))) =
          sort (remdups (map fst (overall_counts rows)))"
    by (rule sorted_list_of_set_sort_remdups)
  then show ?thesis
    using overall_counts_distinct [of rows] overall_counts_keys [of rows]
    by (simp add: distinct_remdups_id)
qed

text \<open>
  C9 (overall distribution).  The overall distribution has one point for each distinct
  midpoint of the samples, whatever their tags, in ascending order, and the point of a
  midpoint is the sum of the counts of the samples with that midpoint, divided by the grand
  total of the counts, times 100; when the grand total is zero, where there is no percentage,
  the divisor is 1.  Two samples with midpoint 12.5 and counts 100 and 50 give the single
  point 12.5 with 100 percent.
\<close>

theorem overall_percentages:
  "map fst (overall_distribution rows) = sorted_list_of_set (midpoint ` set rows)
   \<and> (\<forall>m \<in> midpoint ` set rows.
         map_of (overall_distribution rows) m =
           Some (sum_list (map count (filter (\<lambda>r. midpoint r = m) rows))
                   / (if sum_list (map count rows) = 0 then 1 else sum_list (map count rows))
                   * 100))
   \<and> overall_distribution
       [\<lparr>io_size = 4096, queue_depth = 1, run = 1, start_us = 10, end_us = 15, count = 100\<rparr>,
        \<lparr>io_size = 512, queue_depth = 8, run = 2, start_us = 12, end_us = 13, count = 50\<rparr>] =
       [(25 / 2, 100)]"
proof -
  let ?oc = "overall_counts rows"
  let ?total = "if sum_list (map count rows) = 0 then 1 else sum_list (map count rows)"
  have 3: "overall_distribution
             [\<lparr>io_size = 4096, queue_depth = 1, run = 1, start_us = 10, end_us = 15, count = 100\<rparr>,
              \<lparr>io_size = 512, queue_depth = 8, run = 2, start_us = 12, end_us = 13, count = 50\<rparr>] =
             [(25 / 2, 100)]"
    by code_simp
  have empty: "?oc = [] \<Longrightarrow> midpoint ` set rows = {}"
    using overall_counts_keys [of rows] by simp
  have od: "overall_distribution rows =
              map (\<lambda>m. (m, (case map_of ?oc m of None \<Rightarrow> 0 | Some c \<Rightarrow> c) / ?total * 100))
                (sorted_list_of_set (midpoint ` set rows))"
  proof (cases "?oc = []")
    case True
    then show ?thesis using empty by (simp add: overall_distribution_def)
  next
    case False
    then show ?thesis
      by (simp add: overall_distribution_def Let_def overall_counts_total overall_mids)
  qed
  have 1: "map fst (overall_distribution rows) = sorted_list_of_set (midpoint ` set rows)"
    by (simp add: od comp_def)
  have 2: "\<forall>m \<in> midpoint ` set rows.
               map_of (overall_distribution rows) m =
                 Some (sum_list (map count (filter (\<lambda>r. midpoint r = m) rows)) / ?total * 100)"
  proof
    fix m
    assume m: "m \<in> midpoint ` set rows"
    have "map_of (overall_distribution rows) m =
            Some ((case map_of ?oc m of None \<Rightarrow> 0 | Some c \<Rightarrow> c) / ?total * 100)"
      using m by (simp add: od map_of_map_restrict)
    then show "map_of (overall_distribution rows) m =
                 Some (sum_list (map count (filter (\<lambda>r. midpoint r = m) rows)) / ?total * 100)"
      using m by (simp add: overall_counts_lookup)
  qed
  show ?thesis using 1 2 3 by simp
qed

theorem overall_percentages_witness:
  "map fst (overall_distribution
     [\<lparr>io_size = 4096, queue_depth = 1, run = 1, start_us = 10, end_us = 15, count = 100\<rparr>,
      \<lparr>io_size = 512, queue_depth = 2, run = 1, start_us = 10, end_us = 15, count = 50\<rparr>,
      \<lparr>io_size = 512, queue_depth = 2, run = 2, start_us = 20, end_us = 30, count = 50\<rparr>]) =
     [25 / 2, 25]
   \<and> map_of (overall_distribution
     [\<lparr>io_size = 4096, queue_depth = 1, run = 1, start_us = 10, end_us = 15, count = 100\<rparr>,
      \<lparr>io_size = 512, queue_depth = 2, run = 1, start_us = 10, end_us = 15, count = 50\<rparr>,
      \<lparr>io_size = 512, queue_depth = 2, run = 2, start_us = 20, end_us = 30, count = 50\<rparr>])
       (25 / 2) = Some 75"
proof -
  let ?rows = "[\<lparr>io_size = 4096, queue_depth = 1, run = 1, start_us = 10, end_us = 15, count = 100\<rparr>,
      \<lparr>io_size = 512, queue_depth = 2, run = 1, start_us = 10, end_us = 15, count = 50\<rparr>,
      \<lparr>io_size = 512, queue_depth = 2, run = 2, start_us = 20, end_us = 30, count = 50\<rparr>]"
  have s: "sorted_list_of_set (midpoint ` set ?rows) = [25 / 2, 25]"
    by code_simp
  have m: "25 / 2 \<in> midpoint ` set ?rows"
    by code_simp
  have v: "sum_list (map count (filter (\<lambda>r. midpoint r = 25 / 2) ?rows))
             / (if sum_list (map count ?rows) = 0 then 1 else sum_list (map count ?rows)) * 100 = 75"
    by code_simp
  have k: "map fst (overall_distribution ?rows) = sorted_list_of_set (midpoint ` set ?rows)"
    and a: "\<forall>m \<in> midpoint ` set ?rows.
               map_of (overall_distribution ?rows) m =
                 Some (sum_list (map count (filter (\<lambda>r. midpoint r = m) ?rows))
                   / (if sum_list (map count ?rows) = 0 then 1 else sum_list (map count ?rows))
                   * 100)"
    using overall_percentages [of ?rows] by blast+
  have "map_of (overall_distribution ?rows) (25 / 2) = Some 75"
    using bspec [OF a m] unfolding v .
  then show ?thesis using k unfolding s by blast
qed

end
